theory Spec2Isabelle
  imports Main
begin

section \<open>JavaScript values\<close>

text \<open>
  The values that flow through \<^verbatim>\<open>lib/index.js\<close>: response bodies, the results of the
  discovery function and the candidate URLs. Only what the crawler inspects is kept:
  \<^verbatim>\<open>typeof\<close>, \<^verbatim>\<open>Array.isArray\<close> and truthiness.
\<close>

datatype jsval =
    JUndefined
  | JNull
  | JBool bool
  | JNum int
  | JStr string
  | JArr "jsval list"
  | JObj "(string \<times> jsval) list"

fun truthy :: "jsval \<Rightarrow> bool" where
  "truthy JUndefined = False"
| "truthy JNull = False"
| "truthy (JBool b) = b"
| "truthy (JNum n) = (n \<noteq> 0)"
| "truthy (JStr s) = (s \<noteq> [])"
| "truthy (JArr xs) = True"
| "truthy (JObj kvs) = True"

fun isArray :: "jsval \<Rightarrow> bool" where
  "isArray (JArr xs) = True"
| "isArray v = False"

text \<open>
  \<^verbatim>\<open>[].concat(v)\<close>: an array argument contributes its elements (one level), any other
  value contributes itself.
\<close>

fun concat_js :: "jsval \<Rightarrow> jsval list" where
  "concat_js (JArr xs) = xs"
| "concat_js v = [v]"

text \<open>
  The numbers held by \<^verbatim>\<open>limit\<close>: an integer or \<^verbatim>\<open>Infinity\<close> (the default).
  \<open>decr\<close> is \<^verbatim>\<open>--limit\<close> and \<open>le0\<close> is \<^verbatim>\<open>limit <= 0\<close>.
\<close>

datatype jsnum = Fin int | Infinity

fun decr :: "jsnum \<Rightarrow> jsnum" where
  "decr (Fin n) = Fin (n - 1)"
| "decr Infinity = Infinity"

fun le0 :: "jsnum \<Rightarrow> bool" where
  "le0 (Fin n) = (n \<le> 0)"
| "le0 Infinity = False"

datatype err = DriverError string | TimeoutError | ReferenceError string

section \<open>Request contexts\<close>

datatype ctype = Html | Xml | Json | Other

record request =
  rq_headers :: "(string \<times> string) list"

record response =
  rs_status :: int
  rs_type :: ctype
  rs_body :: jsval

record ctx =
  c_url :: jsval
  c_request :: request
  c_response :: response

text \<open>\<^verbatim>\<open>ctx.body\<close> is the body of the inbound response descriptor.\<close>

definition body :: "ctx \<Rightarrow> jsval" where
  "body c = rs_body (c_response c)"

definition set_body :: "jsval \<Rightarrow> ctx \<Rightarrow> ctx" where
  "set_body v c = c\<lparr>c_response := (c_response c)\<lparr>rs_body := v\<rparr>\<rparr>"

text \<open>\<^verbatim>\<open>response.is(t)\<close>: the derived content classification.\<close>

definition is_type :: "response \<Rightarrow> ctype \<Rightarrow> bool" where
  "is_type r t = (rs_type r = t)"

text \<open>
  Modelled from the spec: \<^verbatim>\<open>context()\<close> of the package http-context is not part of the
  sources. The spec's FetchAdapter "builds a fresh RequestContext": empty descriptors and no
  body.
\<close>

definition new_context :: ctx where
  "new_context =
     \<lparr>c_url = JUndefined,
      c_request = \<lparr>rq_headers = []\<rparr>,
      c_response = \<lparr>rs_status = 0, rs_type = Other, rs_body = JUndefined\<rparr>\<rparr>"

section \<open>The crawler's configuration\<close>

text \<open>
  What a driver hands to its callback: an error, or a result together with the context as
  the driver left it. The result is the context itself (\<open>RCtx\<close>) or some other value.
\<close>

datatype dres = RCtx | RVal jsval

datatype outcome = Fails err | Returns ctx dres

text \<open>
  \<^verbatim>\<open>this.state\<close>. \<^verbatim>\<open>throttle\<close> and \<^verbatim>\<open>delay\<close> come from \<^verbatim>\<open>./rate-limit\<close>
  and \<^verbatim>\<open>./range\<close>, which are not among the sources; each depends on the clock or on a
  random draw, and is represented by the sequence of values its successive calls return
  (the argument is the number of earlier calls). \<^verbatim>\<open>concurrency\<close> is not set by the
  constructor, hence optional. A call of the discovery function \<^verbatim>\<open>paginate\<close> returns its
  candidates (\<open>Inr\<close>) or throws (\<open>Inl\<close>).
\<close>

record crawler =
  st_response :: "response \<Rightarrow> response"
  st_paginate :: "jsval \<Rightarrow> ctx \<Rightarrow> err + jsval"
  st_throttle :: "nat \<Rightarrow> nat"
  st_request :: "request \<Rightarrow> request"
  st_driver :: "ctx \<Rightarrow> outcome"
  st_delay_to :: bool
  st_limit :: jsnum
  st_delay :: "nat \<Rightarrow> nat"
  st_timeout :: "nat option"
  st_throws :: bool
  st_url :: jsval
  st_concurrency :: "nat option"

text \<open>
  \<^verbatim>\<open>function Crawler(url)\<close>: the default state. The hooks \<^verbatim>\<open>function(){}\<close> leave
  their descriptor alone and the default discovery function returns \<^verbatim>\<open>undefined\<close>.
  The default driver \<^verbatim>\<open>driver()\<close> of \<^verbatim>\<open>./http\<close> is not among the sources and is a
  parameter; \<^verbatim>\<open>rate_limit()\<close> and \<^verbatim>\<open>range()\<close> without arguments add no wait
  (spec 4.1, 4.2).
\<close>

definition Crawler :: "(ctx \<Rightarrow> outcome) \<Rightarrow> jsval \<Rightarrow> crawler" where
  "Crawler http url =
     \<lparr>st_response = (\<lambda>r. r),
      st_paginate = (\<lambda>d c. Inr JUndefined),
      st_throttle = (\<lambda>k. 0),
      st_request = (\<lambda>r. r),
      st_driver = http,
      st_delay_to = False,
      st_limit = Infinity,
      st_delay = (\<lambda>k. 0),
      st_timeout = None,
      st_throws = False,
      st_url = url,
      st_concurrency = None\<rparr>"

text \<open>
  The fluent setters, called with an argument. \<^verbatim>\<open>paginate(fn)\<close> stores \<^verbatim>\<open>fn\<close> when it
  is a function and \<^verbatim>\<open>compile\<close> (below) otherwise; either is the argument of
  \<open>SetPaginate\<close>.
\<close>

datatype setter =
    SetConcurrency nat
  | SetResponse "response \<Rightarrow> response"
  | SetRequest "request \<Rightarrow> request"
  | SetDriver "ctx \<Rightarrow> outcome"
  | SetThrows bool
  | SetLimit jsnum
  | SetThrottle "nat \<Rightarrow> nat"
  | SetDelay "nat \<Rightarrow> nat"
  | SetTimeout "nat option"
  | SetPaginate "jsval \<Rightarrow> ctx \<Rightarrow> err + jsval"

fun apply_setter :: "setter \<Rightarrow> crawler \<Rightarrow> crawler" where
  "apply_setter (SetConcurrency n) c = c\<lparr>st_concurrency := Some n\<rparr>"
| "apply_setter (SetResponse f) c = c\<lparr>st_response := f\<rparr>"
| "apply_setter (SetRequest f) c = c\<lparr>st_request := f\<rparr>"
| "apply_setter (SetDriver d) c = c\<lparr>st_driver := d\<rparr>"
| "apply_setter (SetThrows b) c = c\<lparr>st_throws := b\<rparr>"
| "apply_setter (SetLimit l) c = c\<lparr>st_limit := l\<rparr>"
| "apply_setter (SetThrottle f) c = c\<lparr>st_throttle := f\<rparr>"
| "apply_setter (SetDelay f) c = c\<lparr>st_delay := f\<rparr>"
| "apply_setter (SetTimeout t) c = c\<lparr>st_timeout := t\<rparr>"
| "apply_setter (SetPaginate f) c = c\<lparr>st_paginate := f\<rparr>"

section \<open>Selecting candidates\<close>

text \<open>
  \<^verbatim>\<open>json_select(selector, json)\<close>. The array branch maps \<^verbatim>\<open>selectn\<close> (an external
  package, a parameter here) over the elements. The other branch reads the variable
  \<^verbatim>\<open>obj\<close>, which is bound only inside the function expression of the array branch: the
  read raises a ReferenceError.
\<close>

definition json_select ::
  "(string \<Rightarrow> jsval \<Rightarrow> jsval) \<Rightarrow> string \<Rightarrow> jsval \<Rightarrow> err + jsval" where
  "json_select selectn selector json =
     (if isArray json
      then Inr (JArr (map (\<lambda>obj. selectn selector obj) (concat_js json)))
      else Inl (ReferenceError ''obj''))"

text \<open>
  \<^verbatim>\<open>compile($, ctx)\<close>, the discovery function that \<^verbatim>\<open>paginate(fn)\<close> installs when
  \<^verbatim>\<open>fn\<close> is not a function. \<^verbatim>\<open>select\<close> of \<^verbatim>\<open>./select\<close> is not among the sources and
  is a parameter.
\<close>

definition compile ::
  "(jsval \<Rightarrow> string \<Rightarrow> jsval) \<Rightarrow> (string \<Rightarrow> jsval \<Rightarrow> jsval) \<Rightarrow> string \<Rightarrow> jsval \<Rightarrow> ctx
     \<Rightarrow> err + jsval" where
  "compile select selectn fn d c =
     (let response = c_response c in
      if is_type response Html \<or> is_type response Xml then Inr (select d fn)
      else if is_type response Json then json_select selectn fn d
      else Inr (JArr []))"

text \<open>
  Modelled from the spec: \<^verbatim>\<open>parse\<close> is the function of Node's \<^verbatim>\<open>url\<close> module, not part
  of the sources. A candidate "must parse with a recognizable scheme": after leading white
  space, a non-empty run of letters, digits, \<^verbatim>\<open>.\<close>, \<^verbatim>\<open>+\<close> and \<^verbatim>\<open>-\<close> followed by a
  colon; the protocol is that run in lower case with its colon, and is absent otherwise.
\<close>

definition is_space :: "char \<Rightarrow> bool" where
  "is_space ch = (ch \<in> set [CHR '' '', CHR 0x09, CHR 0x0A, CHR 0x0B, CHR 0x0C, CHR 0x0D])"

definition scheme_char :: "char \<Rightarrow> bool" where
  "scheme_char ch =
     (let n = (of_char ch :: nat) in
      (97 \<le> n \<and> n \<le> 122) \<or> (65 \<le> n \<and> n \<le> 90) \<or> (48 \<le> n \<and> n \<le> 57)
      \<or> ch = CHR ''.'' \<or> ch = CHR ''+'' \<or> ch = CHR ''-'')"

definition lower :: "char \<Rightarrow> char" where
  "lower ch =
     (let n = (of_char ch :: nat) in if 65 \<le> n \<and> n \<le> 90 then char_of (n + 32) else ch)"

definition protocol :: "string \<Rightarrow> string option" where
  "protocol s =
     (let rest = dropWhile is_space s;
          proto = takeWhile scheme_char rest;
          after = dropWhile scheme_char rest
      in if proto \<noteq> [] \<and> take 1 after = '':'' then Some (map lower proto @ '':'')
         else None)"

text \<open>
  \<^verbatim>\<open>canRequest(url)\<close>: the protocol (\<^verbatim>\<open>null\<close> when there is none) for a string,
  \<^verbatim>\<open>false\<close> for anything else.
\<close>

definition canRequest :: "jsval \<Rightarrow> jsval" where
  "canRequest url =
     (case url of
        JStr s \<Rightarrow> (case protocol s of Some p \<Rightarrow> JStr p | None \<Rightarrow> JNull)
      | _ \<Rightarrow> JBool False)"

section \<open>The fetch adapter\<close>

text \<open>
  A dispatched driver call waiting for its completion: the context after the request hook,
  the response hook that \<^verbatim>\<open>get\<close> read when it was called, and what the driver will
  hand to \<^verbatim>\<open>done\<close>.
\<close>

record job =
  j_url :: jsval
  j_ctx :: ctx
  j_response :: "response \<Rightarrow> response"
  j_outcome :: outcome

text \<open>
  \<^verbatim>\<open>done(err, res)\<close> inside \<^verbatim>\<open>get\<close>, for the context \<open>c\<close> as the driver left it. The
  result is the pair of arguments that \<^verbatim>\<open>fn\<close> receives.
\<close>

definition get_done ::
  "(response \<Rightarrow> response) \<Rightarrow> ctx \<Rightarrow> err option \<Rightarrow> dres \<Rightarrow> err option \<times> ctx option" where
  "get_done response c e res =
     (case e of
        Some x \<Rightarrow> (Some x, None)
      | None \<Rightarrow>
          (let c1 = (case res of
                       RVal v \<Rightarrow> if truthy v then set_body v c else c
                     | RCtx \<Rightarrow> c)
           in (None, Some (c1\<lparr>c_response := response (c_response c1)\<rparr>))))"

text \<open>
  \<^verbatim>\<open>Crawler.prototype.get(url, fn)\<close>. The hooks and the driver are read from the live
  state \<open>s\<close> at the call. Either \<^verbatim>\<open>fn\<close> is called at once (a context that already has a
  body), or the driver is dispatched.
\<close>

datatype dispatch = Called "err option \<times> ctx option" | Pending job

definition get :: "crawler \<Rightarrow> jsval \<Rightarrow> dispatch" where
  "get s url =
     (let response = st_response s;
          request = st_request s;
          driver = st_driver s;
          c0 = new_context\<lparr>c_url := url\<rparr>;
          c1 = c0\<lparr>c_request := request (c_request c0)\<rparr>
      in if truthy (body c1) then Called (get_done response c1 None RCtx)
         else Pending \<lparr>j_url = url, j_ctx = c1, j_response = response, j_outcome = driver c1\<rparr>)"

text \<open>The arguments \<^verbatim>\<open>fn\<close> receives when the driver of a dispatched job calls back.\<close>

definition job_result :: "job \<Rightarrow> err option \<times> ctx option" where
  "job_result j =
     (case j_outcome j of
        Fails x \<Rightarrow> get_done (j_response j) (j_ctx j) (Some x) (RVal JUndefined)
      | Returns c res \<Rightarrow> get_done (j_response j) c None res)"

section \<open>The job queue\<close>

text \<open>
  Modelled from the spec: \<^verbatim>\<open>enqueue\<close> is an external package, not part of the sources.
  Spec 4.3: at most \<open>concurrency\<close> jobs run, further submissions wait in FIFO order, and a
  submission is rejected once the cumulative number of accepted submissions has reached
  \<open>limit\<close>. \<open>q_pending\<close> holds the running jobs and \<open>q_jobs\<close> the waiting items. The
  spec gives no meaning to a queue without a slot, and its default crawler, for which the
  constructor sets no concurrency, fetches its seed: an absent concurrency or a concurrency
  of 0 counts as 1.
\<close>

record queue =
  q_concurrency :: nat
  q_timeout :: "nat option"
  q_limit :: jsnum
  q_accepted :: nat
  q_pending :: "job list"
  q_jobs :: "jsval list"

definition new_queue :: "nat option \<Rightarrow> nat option \<Rightarrow> jsnum \<Rightarrow> queue" where
  "new_queue concurrency timeout lim =
     \<lparr>q_concurrency = (case concurrency of None \<Rightarrow> 1 | Some n \<Rightarrow> if n = 0 then 1 else n),
      q_timeout = timeout,
      q_limit = lim,
      q_accepted = 0,
      q_pending = [],
      q_jobs = []\<rparr>"

fun reached :: "nat \<Rightarrow> jsnum \<Rightarrow> bool" where
  "reached n (Fin l) = (l \<le> int n)"
| "reached n Infinity = False"

section \<open>The crawl\<close>

datatype signal = SResponse jsval ctx | SError err jsval

text \<open>
  The variables of one call of \<^verbatim>\<open>crawl\<close>, and what it has done so far. \<open>self\<close> is the
  live \<^verbatim>\<open>this.state\<close>; \<open>limit\<close>, \<open>paginate\<close>, \<open>throttle\<close>, \<open>throws\<close>, \<open>delay\<close>,
  \<open>scheduled\<close> and \<open>queue\<close> are the locals of that name. \<open>timers\<close> are the pending
  \<^verbatim>\<open>setTimeout\<close> callbacks of \<^verbatim>\<open>schedule\<close> with their URL and wait, \<open>emitted\<close> the
  signals sent so far, \<open>completions\<close> the number of calls of \<^verbatim>\<open>done()\<close>. \<open>cheerio\<close> stands
  for \<^verbatim>\<open>cheerio.load\<close> followed by \<^verbatim>\<open>absolutes\<close> (URL, xmlMode, body), neither in the
  sources. The remaining fields only record history: \<open>fetched\<close> the URLs \<^verbatim>\<open>get\<close> was
  called with, \<open>calls\<close> how often \<^verbatim>\<open>throttle()\<close> and \<^verbatim>\<open>delay()\<close> were called,
  \<open>submitted\<close> the calls of the queue, and \<open>timer_rejections\<close> how often the timer
  callback took its \<^verbatim>\<open>if (!queued) return\<close> branch. Nothing in the sources catches an
  exception: \<open>raised\<close> is the exception on its way out of the callback that is running,
  and \<open>uncaught\<close> lists the exceptions that have left a callback.
\<close>

record run =
  self :: crawler
  limit :: jsnum
  paginate :: "jsval \<Rightarrow> ctx \<Rightarrow> err + jsval"
  throttle :: "nat \<Rightarrow> nat"
  throws :: bool
  delay :: "nat \<Rightarrow> nat"
  scheduled :: int
  queue :: queue
  timers :: "(jsval \<times> nat) list"
  emitted :: "signal list"
  completions :: nat
  cheerio :: "jsval \<Rightarrow> bool \<Rightarrow> jsval \<Rightarrow> jsval"
  fetched :: "jsval list"
  calls :: nat
  submitted :: nat
  timer_rejections :: nat
  raised :: "err option"
  uncaught :: "err list"

text \<open>
  \<^verbatim>\<open>schedule(url)\<close>: the limit is decremented first; an admitted URL increments
  \<open>scheduled\<close> and then starts its timer.
\<close>

definition schedule :: "jsval \<Rightarrow> run \<Rightarrow> run" where
  "schedule url st =
     (let st1 = st\<lparr>limit := decr (limit st)\<rparr> in
      if le0 (limit st1) then st1
      else
        (let wait = throttle st1 (calls st1) + delay st1 (calls st1);
             st2 = st1\<lparr>calls := calls st1 + 1\<rparr>;
             st3 = st2\<lparr>scheduled := scheduled st2 + 1\<rparr>
         in st3\<lparr>timers := timers st3 @ [(url, wait)]\<rparr>))"

text \<open>
  \<^verbatim>\<open>onresponse(ctx)\<close>. When the call \<^verbatim>\<open>paginate($, ctx)\<close> throws, the response signal
  has been sent and the rest of the function is not executed.
\<close>

definition onresponse :: "ctx \<Rightarrow> run \<Rightarrow> run" where
  "onresponse c st =
     (let response = c_response c;
          isJSON = is_type response Json;
          isHTML = is_type response Html;
          isXML = is_type response Xml;
          d = (if isHTML \<or> isXML then cheerio st (c_url c) isXML (body c) else body c);
          st1 = st\<lparr>emitted := emitted st @ [SResponse d c]\<rparr>
      in case paginate st1 d c of
           Inl x \<Rightarrow> st1\<lparr>raised := Some x\<rparr>
         | Inr next_page \<Rightarrow>
             (let urls = (if truthy next_page
                          then filter (\<lambda>u. truthy (canRequest u)) ([] @ concat_js next_page)
                          else [])
              in if urls \<noteq> [] then foldl (\<lambda>s u. schedule u s) st1 urls else st1))"

text \<open>
  The end of the callback of \<^verbatim>\<open>onjobfinish\<close>:
  \<^verbatim>\<open>if (--scheduled <= 0) return done()\<close>. It is not reached when an exception is on
  its way out of the callback.
\<close>

definition settle :: "run \<Rightarrow> run" where
  "settle st =
     (if raised st \<noteq> None then st
      else
        (let st1 = st\<lparr>scheduled := scheduled st - 1\<rparr> in
         if scheduled st1 \<le> 0 then st1\<lparr>completions := completions st1 + 1\<rparr> else st1))"

text \<open>The callback \<^verbatim>\<open>onjobfinish(url)\<close>, applied to \<^verbatim>\<open>(err, ctx)\<close>.\<close>

definition onjobfinish :: "jsval \<Rightarrow> err option \<Rightarrow> ctx option \<Rightarrow> run \<Rightarrow> run" where
  "onjobfinish url e c st =
     settle
       (case e of
          Some x \<Rightarrow> st\<lparr>emitted := emitted st @ [SError x url]\<rparr>
        | None \<Rightarrow> (case c of Some cx \<Rightarrow> onresponse cx st | None \<Rightarrow> st))"

text \<open>
  The queue calls the callback of an item. An exception that leaves the callback has cut
  off the rest of it; it is caught nowhere in the sources and is recorded.
\<close>

definition callback :: "jsval \<Rightarrow> err option \<Rightarrow> ctx option \<Rightarrow> run \<Rightarrow> run" where
  "callback url e c st =
     (let st1 = onjobfinish url e c st in
      case raised st1 of
        None \<Rightarrow> st1
      | Some x \<Rightarrow> st1\<lparr>raised := None, uncaught := uncaught st1 @ [x]\<rparr>)"

text \<open>
  Modelled from the spec (4.3): the queue starts waiting items, first in first out, while
  a slot is free. Starting an item is the worker of \<^verbatim>\<open>crawl\<close>,
  \<^verbatim>\<open>self.get(url, next)\<close>; when \<^verbatim>\<open>get\<close> calls back at once, the item's callback
  \<^verbatim>\<open>onjobfinish(url)\<close> runs before the next item is looked at.
\<close>

fun pump_jobs :: "jsval list \<Rightarrow> run \<Rightarrow> run" where
  "pump_jobs [] st = st"
| "pump_jobs (u # us) st =
     (if length (q_pending (queue st)) < q_concurrency (queue st) then
        (let st1 = st\<lparr>queue := (queue st)\<lparr>q_jobs := us\<rparr>, fetched := fetched st @ [u]\<rparr> in
         case get (self st1) u of
           Pending j \<Rightarrow>
             pump_jobs us (st1\<lparr>queue := (queue st1)\<lparr>q_pending := q_pending (queue st1) @ [j]\<rparr>\<rparr>)
         | Called (e, c) \<Rightarrow> pump_jobs us (callback u e c st1))
      else st)"

definition pump :: "run \<Rightarrow> run" where
  "pump st = pump_jobs (q_jobs (queue st)) st"

text \<open>
  Modelled from the spec (4.3): \<^verbatim>\<open>queue(url, onjobfinish(url))\<close>, the submission. It
  returns whether the item was accepted.
\<close>

definition enqueue :: "jsval \<Rightarrow> run \<Rightarrow> bool \<times> run" where
  "enqueue url st =
     (let st1 = st\<lparr>submitted := submitted st + 1\<rparr>; q = queue st1 in
      if reached (q_accepted q) (q_limit q) then (False, st1)
      else (True, pump (st1\<lparr>queue := q\<lparr>q_accepted := q_accepted q + 1,
                                          q_jobs := q_jobs q @ [url]\<rparr>\<rparr>)))"

text \<open>
  Modelled from the spec (4.3): the callback of the running job at position \<open>i\<close> fires with
  the arguments \<open>(e, c)\<close>; its slot is free, and the queue starts the next waiting item
  (the spec makes no exception for a callback that throws).
\<close>

definition drop_nth :: "nat \<Rightarrow> 'a list \<Rightarrow> 'a list" where
  "drop_nth i xs = take i xs @ drop (Suc i) xs"

definition finish :: "nat \<Rightarrow> err option \<Rightarrow> ctx option \<Rightarrow> run \<Rightarrow> run" where
  "finish i e c st =
     (let j = q_pending (queue st) ! i;
          st1 = st\<lparr>queue := (queue st)\<lparr>q_pending := drop_nth i (q_pending (queue st))\<rparr>\<rparr>
      in pump (callback (j_url j) e c st1))"

text \<open>
  The callback that \<^verbatim>\<open>schedule\<close> hands to \<^verbatim>\<open>setTimeout\<close>. Both branches of
  \<^verbatim>\<open>if (!queued) return\<close> end the callback; the rejected one is counted.
\<close>

definition ontimer :: "jsval \<Rightarrow> run \<Rightarrow> run" where
  "ontimer url st =
     (case enqueue url st of
        (queued, st1) \<Rightarrow>
          if \<not> queued then st1\<lparr>timer_rejections := timer_rejections st1 + 1\<rparr> else st1)"

text \<open>
  \<^verbatim>\<open>Crawler.prototype.crawl(done)\<close> up to its return. A function value is truthy, and
  \<^verbatim>\<open>this.state.paginate\<close> is a function in every state that the constructor and the
  setter \<^verbatim>\<open>paginate\<close> produce.
\<close>

definition function_truthy :: "('a \<Rightarrow> 'b) \<Rightarrow> bool" where
  "function_truthy f = True"

definition crawl :: "(jsval \<Rightarrow> bool \<Rightarrow> jsval \<Rightarrow> jsval) \<Rightarrow> crawler \<Rightarrow> run" where
  "crawl load c =
     (let lim = (if function_truthy (st_paginate c) then st_limit c else Fin 1);
          st0 = \<lparr>self = c, limit = lim, paginate = st_paginate c, throttle = st_throttle c,
                 throws = st_throws c, delay = st_delay c, scheduled = 0,
                 queue = new_queue (st_concurrency c) (st_timeout c) lim,
                 timers = [], emitted = [], completions = 0, cheerio = load,
                 fetched = [], calls = 0, submitted = 0, timer_rejections = 0,
                 raised = None, uncaught = []\<rparr>;
          st1 = st0\<lparr>scheduled := scheduled st0 + 1\<rparr>
      in snd (enqueue (st_url c) st1))"

section \<open>Events\<close>

text \<open>
  After \<^verbatim>\<open>crawl\<close> has returned, the run advances one event at a time: a timer of
  \<^verbatim>\<open>schedule\<close> fires, the driver of a running job calls back, the queue times a running
  job out (only with a timeout configured), or the caller uses a fluent setter. Timers and
  drivers may fire in any order. An event that cannot happen in a state leaves it as it is.
\<close>

datatype event = Timer nat | Complete nat | Timeout nat | Mutate setter

fun enabled :: "event \<Rightarrow> run \<Rightarrow> bool" where
  "enabled (Timer i) st = (i < length (timers st))"
| "enabled (Complete i) st = (i < length (q_pending (queue st)))"
| "enabled (Timeout i) st = (i < length (q_pending (queue st)) \<and> q_timeout (queue st) \<noteq> None)"
| "enabled (Mutate s) st = True"

fun fire :: "event \<Rightarrow> run \<Rightarrow> run" where
  "fire (Timer i) st = ontimer (fst (timers st ! i)) (st\<lparr>timers := drop_nth i (timers st)\<rparr>)"
| "fire (Complete i) st =
     (case job_result (q_pending (queue st) ! i) of (e, c) \<Rightarrow> finish i e c st)"
| "fire (Timeout i) st = finish i (Some TimeoutError) None st"
| "fire (Mutate s) st = st\<lparr>self := apply_setter s (self st)\<rparr>"

definition step :: "event \<Rightarrow> run \<Rightarrow> run" where
  "step ev st = (if enabled ev st then fire ev st else st)"

definition exec :: "event list \<Rightarrow> run \<Rightarrow> run" where
  "exec evs st = foldl (\<lambda>s ev. step ev s) st evs"

text \<open>The events of the run itself, as opposed to the caller's setters.\<close>

fun internal :: "event \<Rightarrow> bool" where
  "internal (Mutate s) = False"
| "internal ev = True"

text \<open>The units of work that are pending: running jobs, waiting items and timers.\<close>

definition work :: "run \<Rightarrow> nat" where
  "work st = length (q_pending (queue st)) + length (q_jobs (queue st)) + length (timers st)"

section \<open>Invariants of a run\<close>

text \<open>
  The bookkeeping of the cap. With the queue's limit \<open>L\<close> and the local \<open>limit\<close> at \<open>l\<close>,
  the submissions accepted so far together with the timers still pending number
  \<open>L + 1 - max l 1\<close>: the seed, and one for each time \<^verbatim>\<open>--limit\<close> stayed positive.
\<close>

fun cap_rel :: "jsnum \<Rightarrow> jsnum \<Rightarrow> nat \<Rightarrow> bool" where
  "cap_rel Infinity l n = (l = Infinity)"
| "cap_rel (Fin L) (Fin l) n = (l \<le> L \<and> int n = L + 1 - max l 1)"
| "cap_rel (Fin L) Infinity n = False"

definition cap :: "run \<Rightarrow> bool" where
  "cap st = cap_rel (q_limit (queue st)) (limit st) (q_accepted (queue st) + length (timers st))"

text \<open>
  The state of a run whose seed was accepted, with no exception on its way. \<open>scheduled\<close>
  counts the pending units of work, one for every callback that an exception cut off
  before its decrement, and \<open>k\<close> more: \<open>k = 1\<close> while the callback of a job that has left
  the queue is running, \<open>k = 0\<close> between events.
\<close>

definition ledger :: "int \<Rightarrow> run \<Rightarrow> bool" where
  "ledger k st =
     (scheduled st = int (work st) + int (length (uncaught st)) + k
      \<and> raised st = None
      \<and> completions st = (if scheduled st = 0 then 1 else 0)
      \<and> submitted st = q_accepted (queue st)
      \<and> timer_rejections st = 0
      \<and> length (fetched st) + length (q_jobs (queue st)) = q_accepted (queue st)
      \<and> 1 \<le> q_accepted (queue st)
      \<and> cap st)"

text \<open>The state of a run whose seed the queue rejected: nothing is pending, nothing happens.\<close>

definition dead :: "run \<Rightarrow> bool" where
  "dead st =
     (work st = 0 \<and> scheduled st = 1 \<and> completions st = 0 \<and> q_accepted (queue st) = 0
      \<and> submitted st = 1 \<and> timer_rejections st = 0 \<and> fetched st = [] \<and> emitted st = []
      \<and> le0 (q_limit (queue st)))"

text \<open>What \<open>scheduled\<close> counts beyond the pending timers.\<close>

definition slack :: "run \<Rightarrow> int" where
  "slack st = scheduled st - int (length (timers st))"

text \<open>
  A bound on the events a capped run can still take: every URL that \<^verbatim>\<open>schedule\<close> may
  still admit counts three (its timer, its job, and the admission), a pending timer two, a
  running or waiting job one.
\<close>

fun budget :: "jsnum \<Rightarrow> nat" where
  "budget (Fin l) = nat (l - 1)"
| "budget Infinity = 0"

definition remaining :: "run \<Rightarrow> nat" where
  "remaining st =
     3 * budget (limit st) + 2 * length (timers st)
     + length (q_pending (queue st)) + length (q_jobs (queue st))"

text \<open>No exception has been thrown, and no call of the discovery function will throw.\<close>

definition quiet :: "run \<Rightarrow> bool" where
  "quiet st =
     (raised st = None \<and> uncaught st = [] \<and> (\<forall>d c. \<exists>v. paginate st d c = Inr v))"

text \<open>No item waits while a slot is free.\<close>

definition saturated :: "run \<Rightarrow> bool" where
  "saturated st =
     (q_jobs (queue st) = [] \<or> q_concurrency (queue st) \<le> length (q_pending (queue st)))"


text \<open>
  The filter of \<^verbatim>\<open>onresponse\<close>, and what it is applied to: the parsed body handed to the
  discovery function, and the candidates \<^verbatim>\<open>[].concat(next_page)\<close> of a truthy result
  (none when the call throws).
\<close>

definition requestable :: "jsval \<Rightarrow> bool" where
  "requestable u = truthy (canRequest u)"

definition parsed :: "run \<Rightarrow> ctx \<Rightarrow> jsval" where
  "parsed st c =
     (if is_type (c_response c) Html \<or> is_type (c_response c) Xml
      then cheerio st (c_url c) (is_type (c_response c) Xml) (body c)
      else body c)"

definition candidates :: "run \<Rightarrow> ctx \<Rightarrow> jsval list" where
  "candidates st c =
     (case paginate st (parsed st c) c of
        Inl x \<Rightarrow> []
      | Inr next_page \<Rightarrow> if truthy next_page then concat_js next_page else [])"


text \<open>
  What of a run can be observed apart from the configuration it no longer reads: the live
  state is cut down to the two hooks and the driver, which \<^verbatim>\<open>get\<close> reads at every fetch,
  and the local \<open>throws\<close>, which \<^verbatim>\<open>crawl\<close> never reads, is blanked.
\<close>

definition hooks_only :: "crawler \<Rightarrow> crawler" where
  "hooks_only s =
     \<lparr>st_response = st_response s,
      st_paginate = (\<lambda>d c. Inr JUndefined),
      st_throttle = (\<lambda>k. 0),
      st_request = st_request s,
      st_driver = st_driver s,
      st_delay_to = False,
      st_limit = Infinity,
      st_delay = (\<lambda>k. 0),
      st_timeout = None,
      st_throws = False,
      st_url = JUndefined,
      st_concurrency = None\<rparr>"

definition observable :: "run \<Rightarrow> run" where
  "observable st = st\<lparr>self := hooks_only (self st), throws := False\<rparr>"

text \<open>The setters of what \<^verbatim>\<open>crawl\<close> copies into its locals or into the queue at its start.\<close>

fun snapshot :: "setter \<Rightarrow> bool" where
  "snapshot (SetResponse f) = False"
| "snapshot (SetRequest f) = False"
| "snapshot (SetDriver d) = False"
| "snapshot m = True"

fun is_failure :: "signal \<Rightarrow> bool" where
  "is_failure (SError e u) = True"
| "is_failure (SResponse d c) = False"

section \<open>Scenarios\<close>

text \<open>
  The runs of spec section 8, used to evaluate the model. The driver answers every URL with
  a page; \<open>failing_driver\<close> fails on \<^verbatim>\<open>http://b\<close>. \<open>fanout\<close> is the discovery
  function of the first scenario (three candidates on the seed's response, one of them not
  a URL, then nothing), \<open>chain\<close> always returns one new candidate, and \<open>tree\<close> finds two
  pages below the seed and one more below \<^verbatim>\<open>http://c\<close>. \<open>selector_crawler\<close> is
  configured with \<^verbatim>\<open>paginate('next')\<close> and a limit of 2, and its driver answers with a
  JSON object; the two selector functions stand for \<^verbatim>\<open>./select\<close> and \<^verbatim>\<open>selectn\<close>.
\<close>

definition page_driver :: "ctx \<Rightarrow> outcome" where
  "page_driver c =
     Returns (c\<lparr>c_response := \<lparr>rs_status = 200, rs_type = Html, rs_body = JStr ''page''\<rparr>\<rparr>) RCtx"

definition failing_driver :: "ctx \<Rightarrow> outcome" where
  "failing_driver c =
     (if c_url c = JStr ''http://b'' then Fails (DriverError ''refused'') else page_driver c)"

definition fanout :: "jsval \<Rightarrow> ctx \<Rightarrow> err + jsval" where
  "fanout d c =
     Inr (if c_url c = JStr ''http://a''
          then JArr [JStr ''http://b'', JStr ''not-a-url'', JStr ''http://c'']
          else JUndefined)"

definition chain :: "jsval \<Rightarrow> ctx \<Rightarrow> err + jsval" where
  "chain d c = Inr (case c_url c of JStr s \<Rightarrow> JStr (s @ ''/next'') | _ \<Rightarrow> JUndefined)"

definition tree :: "jsval \<Rightarrow> ctx \<Rightarrow> err + jsval" where
  "tree d c =
     Inr (if c_url c = JStr ''http://a'' then JArr [JStr ''http://b'', JStr ''http://c'']
          else if c_url c = JStr ''http://c'' then JStr ''http://d''
          else JUndefined)"




definition plain :: "jsval \<Rightarrow> bool \<Rightarrow> jsval \<Rightarrow> jsval" where
  "plain u xml b = b"

definition fanout_crawler :: crawler where
  "fanout_crawler = (Crawler page_driver (JStr ''http://a''))\<lparr>st_paginate := fanout\<rparr>"

definition chain_crawler :: crawler where
  "chain_crawler =
     (Crawler page_driver (JStr ''http://a''))\<lparr>st_paginate := chain, st_limit := Fin 2\<rparr>"

definition tree_crawler :: crawler where
  "tree_crawler =
     (Crawler failing_driver (JStr ''http://a''))\<lparr>st_paginate := tree, st_throws := True\<rparr>"


section \<open>Frame and preservation lemmas\<close>

lemma schedule_eq:
  "schedule u st =
     (if le0 (decr (limit st)) then st\<lparr>limit := decr (limit st)\<rparr>
      else st\<lparr>limit := decr (limit st), calls := calls st + 1, scheduled := scheduled st + 1,
              timers := timers st @ [(u, throttle st (calls st) + delay st (calls st))]\<rparr>)"
  by (simp add: schedule_def Let_def)

lemma schedule_frame [simp]:
  "queue (schedule u st) = queue st"
  "self (schedule u st) = self st"
  "emitted (schedule u st) = emitted st"
  "completions (schedule u st) = completions st"
  "fetched (schedule u st) = fetched st"
  "submitted (schedule u st) = submitted st"
  "timer_rejections (schedule u st) = timer_rejections st"
  "paginate (schedule u st) = paginate st"
  "throttle (schedule u st) = throttle st"
  "delay (schedule u st) = delay st"
  "throws (schedule u st) = throws st"
  "cheerio (schedule u st) = cheerio st"
  "raised (schedule u st) = raised st"
  "uncaught (schedule u st) = uncaught st"
  by (simp_all add: schedule_eq)

lemma schedule_ledger: "ledger 1 st \<Longrightarrow> ledger 1 (schedule u st)"
  by (cases "limit st"; cases "q_limit (queue st)")
     (auto simp: ledger_def cap_def work_def schedule_eq)

lemma foldl_schedule_frame [simp]:
  "queue (foldl (\<lambda>s u. schedule u s) st us) = queue st"
  "self (foldl (\<lambda>s u. schedule u s) st us) = self st"
  "emitted (foldl (\<lambda>s u. schedule u s) st us) = emitted st"
  "completions (foldl (\<lambda>s u. schedule u s) st us) = completions st"
  "fetched (foldl (\<lambda>s u. schedule u s) st us) = fetched st"
  "submitted (foldl (\<lambda>s u. schedule u s) st us) = submitted st"
  "timer_rejections (foldl (\<lambda>s u. schedule u s) st us) = timer_rejections st"
  "paginate (foldl (\<lambda>s u. schedule u s) st us) = paginate st"
  "throttle (foldl (\<lambda>s u. schedule u s) st us) = throttle st"
  "delay (foldl (\<lambda>s u. schedule u s) st us) = delay st"
  "throws (foldl (\<lambda>s u. schedule u s) st us) = throws st"
  "cheerio (foldl (\<lambda>s u. schedule u s) st us) = cheerio st"
  "raised (foldl (\<lambda>s u. schedule u s) st us) = raised st"
  "uncaught (foldl (\<lambda>s u. schedule u s) st us) = uncaught st"
  by (induction us arbitrary: st; simp)+

lemma foldl_schedule_ledger: "ledger 1 st \<Longrightarrow> ledger 1 (foldl (\<lambda>s u. schedule u s) st us)"
  by (induction us arbitrary: st) (simp_all add: schedule_ledger)

lemma ledger_emitted [simp]: "ledger k (st\<lparr>emitted := e\<rparr>) = ledger k st"
  by (simp add: ledger_def work_def cap_def)

lemma onresponse_frame [simp]:
  "queue (onresponse c st) = queue st"
  "self (onresponse c st) = self st"
  "completions (onresponse c st) = completions st"
  "fetched (onresponse c st) = fetched st"
  "submitted (onresponse c st) = submitted st"
  "timer_rejections (onresponse c st) = timer_rejections st"
  "paginate (onresponse c st) = paginate st"
  "throttle (onresponse c st) = throttle st"
  "delay (onresponse c st) = delay st"
  "throws (onresponse c st) = throws st"
  "cheerio (onresponse c st) = cheerio st"
  "uncaught (onresponse c st) = uncaught st"
  by (simp_all add: onresponse_def Let_def split: sum.split)

lemma settle_frame [simp]:
  "queue (settle st) = queue st"
  "self (settle st) = self st"
  "emitted (settle st) = emitted st"
  "fetched (settle st) = fetched st"
  "submitted (settle st) = submitted st"
  "timer_rejections (settle st) = timer_rejections st"
  "paginate (settle st) = paginate st"
  "throttle (settle st) = throttle st"
  "delay (settle st) = delay st"
  "throws (settle st) = throws st"
  "cheerio (settle st) = cheerio st"
  "timers (settle st) = timers st"
  "limit (settle st) = limit st"
  "calls (settle st) = calls st"
  "raised (settle st) = raised st"
  "uncaught (settle st) = uncaught st"
  by (simp_all add: settle_def Let_def)

lemma settle_ledger: "ledger 1 st \<Longrightarrow> ledger 0 (settle st)"
  by (auto simp: ledger_def cap_def work_def settle_def Let_def)

lemma settle_raised: "raised st \<noteq> None \<Longrightarrow> settle st = st"
  by (simp add: settle_def)

lemma onjobfinish_frame [simp]:
  "queue (onjobfinish u e c st) = queue st"
  "self (onjobfinish u e c st) = self st"
  "fetched (onjobfinish u e c st) = fetched st"
  "submitted (onjobfinish u e c st) = submitted st"
  "timer_rejections (onjobfinish u e c st) = timer_rejections st"
  "paginate (onjobfinish u e c st) = paginate st"
  "throttle (onjobfinish u e c st) = throttle st"
  "delay (onjobfinish u e c st) = delay st"
  "throws (onjobfinish u e c st) = throws st"
  "cheerio (onjobfinish u e c st) = cheerio st"
  "uncaught (onjobfinish u e c st) = uncaught st"
  by (simp_all add: onjobfinish_def split: option.split)

lemma requestable_fn: "(\<lambda>u. truthy (canRequest u)) = requestable"
  by (simp add: requestable_def fun_eq_iff)

lemma onresponse_candidates:
  "onresponse c st =
     (case paginate st (parsed st c) c of
        Inl x \<Rightarrow> st\<lparr>emitted := emitted st @ [SResponse (parsed st c) c], raised := Some x\<rparr>
      | Inr next_page \<Rightarrow>
          foldl (\<lambda>s u. schedule u s) (st\<lparr>emitted := emitted st @ [SResponse (parsed st c) c]\<rparr>)
            (filter requestable (candidates st c)))"
  by (simp add: onresponse_def candidates_def parsed_def requestable_fn Let_def split: sum.split)

lemma callback_frame [simp]:
  "queue (callback u e c st) = queue st"
  "self (callback u e c st) = self st"
  "fetched (callback u e c st) = fetched st"
  "submitted (callback u e c st) = submitted st"
  "timer_rejections (callback u e c st) = timer_rejections st"
  "paginate (callback u e c st) = paginate st"
  "throttle (callback u e c st) = throttle st"
  "delay (callback u e c st) = delay st"
  "throws (callback u e c st) = throws st"
  "cheerio (callback u e c st) = cheerio st"
  "raised (callback u e c st) = None"
  by (simp_all add: callback_def Let_def split: option.split)

lemma callback_returns:
  "raised (onjobfinish u e c st) = None \<Longrightarrow> callback u e c st = onjobfinish u e c st"
  by (simp add: callback_def Let_def)

lemma onresponse_ledger:
  assumes "ledger 1 st"
  shows "ledger 0 (callback u None (Some c) st)"
proof (cases "paginate st (parsed st c) c")
  case (Inl x)
  then have "callback u None (Some c) st
      = st\<lparr>emitted := emitted st @ [SResponse (parsed st c) c], raised := None,
           uncaught := uncaught st @ [x]\<rparr>"
    by (simp add: callback_def onjobfinish_def onresponse_candidates settle_raised Let_def)
  moreover have "ledger 0 (st\<lparr>emitted := emitted st @ [SResponse (parsed st c) c], raised := None,
           uncaught := uncaught st @ [x]\<rparr>)"
    using assms by (auto simp: ledger_def cap_def work_def)
  ultimately show ?thesis by simp
next
  case (Inr v)
  let ?st2 = "foldl (\<lambda>s u. schedule u s) (st\<lparr>emitted := emitted st @ [SResponse (parsed st c) c]\<rparr>)
            (filter requestable (candidates st c))"
  from assms have "ledger 1 ?st2" by (simp add: foldl_schedule_ledger)
  then have l: "ledger 0 (settle ?st2)" by (rule settle_ledger)
  then have "raised (settle ?st2) = None" by (simp add: ledger_def)
  moreover have "onjobfinish u None (Some c) st = settle ?st2"
    using Inr by (simp add: onjobfinish_def onresponse_candidates)
  ultimately show ?thesis using l by (simp add: callback_returns)
qed

lemma onjobfinish_ledger: "ledger 1 st \<Longrightarrow> ledger 0 (callback u e c st)"
proof (cases e)
  case None
  assume l: "ledger 1 st"
  show ?thesis
  proof (cases c)
    case (Some cx)
    with None l show ?thesis by (simp add: onresponse_ledger)
  next
    case N: None
    from l have "ledger 0 (settle st)" by (rule settle_ledger)
    moreover from this have "raised (settle st) = None" by (simp add: ledger_def)
    ultimately show ?thesis using None N
      by (simp add: callback_def onjobfinish_def)
  qed
next
  case (Some x)
  assume l: "ledger 1 st"
  then have "ledger 1 (st\<lparr>emitted := emitted st @ [SError x u]\<rparr>)" by simp
  then have s: "ledger 0 (settle (st\<lparr>emitted := emitted st @ [SError x u]\<rparr>))" by (rule settle_ledger)
  then have "raised (settle (st\<lparr>emitted := emitted st @ [SError x u]\<rparr>)) = None"
    by (simp add: ledger_def)
  with s Some show ?thesis
    by (simp add: callback_def onjobfinish_def)
qed

lemma pump_jobs_ledger:
  "ledger 0 st \<Longrightarrow> q_jobs (queue st) = us \<Longrightarrow> ledger 0 (pump_jobs us st)"
proof (induction us arbitrary: st)
  case Nil
  then show ?case by simp
next
  case (Cons u us)
  show ?case
  proof (cases "length (q_pending (queue st)) < q_concurrency (queue st)")
    case False
    with Cons.prems show ?thesis by simp
  next
    case True
    let ?st1 = "st\<lparr>queue := (queue st)\<lparr>q_jobs := us\<rparr>, fetched := fetched st @ [u]\<rparr>"
    show ?thesis
    proof (cases "get (self st) u")
      case (Pending j)
      let ?st2 = "?st1\<lparr>queue := (queue ?st1)\<lparr>q_pending := q_pending (queue ?st1) @ [j]\<rparr>\<rparr>"
      have "ledger 0 ?st2"
        using Cons.prems by (auto simp: ledger_def cap_def work_def)
      moreover have "q_jobs (queue ?st2) = us" by simp
      ultimately have "ledger 0 (pump_jobs us ?st2)" by (rule Cons.IH)
      with True Pending show ?thesis by simp
    next
      case (Called r)
      obtain e c where r: "r = (e, c)" by (cases r)
      have "ledger 1 ?st1"
        using Cons.prems by (auto simp: ledger_def cap_def work_def)
      then have "ledger 0 (callback u e c ?st1)" by (rule onjobfinish_ledger)
      moreover have "q_jobs (queue (callback u e c ?st1)) = us" by simp
      ultimately have "ledger 0 (pump_jobs us (callback u e c ?st1))" by (rule Cons.IH)
      with True Called r show ?thesis by simp
    qed
  qed
qed

lemma pump_ledger: "ledger 0 st \<Longrightarrow> ledger 0 (pump st)"
  by (simp add: pump_def pump_jobs_ledger)

lemma cap_not_reached:
  "cap st \<Longrightarrow> timers st \<noteq> [] \<Longrightarrow> \<not> reached (q_accepted (queue st)) (q_limit (queue st))"
  by (cases "q_limit (queue st)"; cases "limit st"; cases "timers st") (auto simp: cap_def)

lemma fire_timer_ledger:
  assumes "ledger 0 st" and "i < length (timers st)"
  shows "ledger 0 (fire (Timer i) st)"
proof -
  let ?st0 = "st\<lparr>timers := drop_nth i (timers st)\<rparr>"
  let ?u = "fst (timers st ! i)"
  let ?st1 = "?st0\<lparr>submitted := submitted ?st0 + 1\<rparr>"
  let ?st2 = "?st1\<lparr>queue := (queue ?st1)\<lparr>q_accepted := q_accepted (queue ?st1) + 1,
                                            q_jobs := q_jobs (queue ?st1) @ [?u]\<rparr>\<rparr>"
  from assms have ne: "timers st \<noteq> []" by auto
  from assms have "cap st" by (simp add: ledger_def)
  then have nr: "\<not> reached (q_accepted (queue st)) (q_limit (queue st))"
    using ne by (rule cap_not_reached)
  have len: "length (timers st) = Suc (length (drop_nth i (timers st)))"
    using assms(2) by (simp add: drop_nth_def)
  have "ledger 0 ?st2"
    using assms(1) by (simp add: ledger_def cap_def work_def len)
  then have "ledger 0 (pump ?st2)" by (rule pump_ledger)
  moreover have "fire (Timer i) st = pump ?st2"
    using nr by (simp add: ontimer_def enqueue_def Let_def)
  ultimately show ?thesis by simp
qed

lemma finish_ledger:
  assumes "ledger 0 st" and "i < length (q_pending (queue st))"
  shows "ledger 0 (finish i e c st)"
proof -
  let ?st1 = "st\<lparr>queue := (queue st)\<lparr>q_pending := drop_nth i (q_pending (queue st))\<rparr>\<rparr>"
  have len: "length (q_pending (queue st)) = Suc (length (drop_nth i (q_pending (queue st))))"
    using assms(2) by (simp add: drop_nth_def)
  have "ledger 1 ?st1"
    using assms(1) by (simp add: ledger_def cap_def work_def len)
  then have "ledger 0 (callback (j_url (q_pending (queue st) ! i)) e c ?st1)"
    by (rule onjobfinish_ledger)
  then show ?thesis
    by (simp add: finish_def Let_def pump_ledger)
qed

lemma ledger_self [simp]: "ledger k (st\<lparr>self := s\<rparr>) = ledger k st"
  by (simp add: ledger_def cap_def work_def)

lemma step_ledger: "ledger 0 st \<Longrightarrow> ledger 0 (step ev st)"
  by (cases ev) (auto simp: step_def fire_timer_ledger finish_ledger simp del: fire.simps(1) split: prod.split)

lemma step_dead: "dead st \<Longrightarrow> dead (step ev st)"
  by (cases ev) (auto simp: step_def dead_def work_def)

lemma crawl_ledger: "\<not> le0 (st_limit c) \<Longrightarrow> ledger 0 (crawl load c)"
proof -
  assume a: "\<not> le0 (st_limit c)"
  let ?st2 = "\<lparr>self = c, limit = st_limit c, paginate = st_paginate c, throttle = st_throttle c,
                 throws = st_throws c, delay = st_delay c, scheduled = 1,
                 queue = (new_queue (st_concurrency c) (st_timeout c) (st_limit c))
                    \<lparr>q_accepted := 1, q_jobs := [st_url c]\<rparr>,
                 timers = [], emitted = [], completions = 0, cheerio = load,
                 fetched = [], calls = 0, submitted = 1, timer_rejections = 0,
                 raised = None, uncaught = []\<rparr>"
  have "ledger 0 ?st2"
    using a by (cases "st_limit c") (auto simp: ledger_def cap_def work_def new_queue_def)
  then have "ledger 0 (pump ?st2)" by (rule pump_ledger)
  moreover have "crawl load c = pump ?st2"
    using a by (cases "st_limit c")
      (simp_all add: crawl_def function_truthy_def enqueue_def Let_def new_queue_def)
  ultimately show ?thesis by simp
qed

lemma crawl_dead: "le0 (st_limit c) \<Longrightarrow> dead (crawl load c)"
  by (cases "st_limit c")
    (simp_all add: crawl_def function_truthy_def enqueue_def Let_def new_queue_def dead_def work_def)

lemma exec_Nil [simp]: "exec [] st = st"
  by (simp add: exec_def)

lemma exec_Cons [simp]: "exec (ev # evs) st = exec evs (step ev st)"
  by (simp add: exec_def)

lemma exec_append: "exec (xs @ ys) st = exec ys (exec xs st)"
  by (simp add: exec_def)

lemma exec_ledger: "ledger 0 st \<Longrightarrow> ledger 0 (exec evs st)"
  by (induction evs arbitrary: st) (simp_all add: step_ledger)

lemma exec_dead: "dead st \<Longrightarrow> dead (exec evs st)"
  by (induction evs arbitrary: st) (simp_all add: step_dead)

lemma reach_cases: "ledger 0 (exec evs (crawl load c)) \<or> dead (exec evs (crawl load c))"
  using crawl_ledger [of c load] crawl_dead [of c load] exec_ledger exec_dead by blast

lemma schedule_slack: "slack (schedule u st) = slack st"
  by (simp add: slack_def schedule_eq)

lemma foldl_schedule_slack: "slack (foldl (\<lambda>s u. schedule u s) st us) = slack st"
  by (induction us arbitrary: st) (simp_all add: schedule_slack)

lemma onresponse_slack: "slack (onresponse c st) = slack st"
  by (simp add: onresponse_candidates foldl_schedule_slack split: sum.split) (simp add: slack_def)

lemma ledger0_quiet:
  assumes "ledger 0 st" and "completions st = 1" and "internal ev"
  shows "\<not> enabled ev st"
proof -
  from assms(1) have c: "completions st = (if scheduled st = 0 then 1 else 0)"
    and w: "scheduled st = int (work st) + int (length (uncaught st)) + 0"
    by (simp_all add: ledger_def)
  from c assms(2) have "scheduled st = 0"
    by (cases "scheduled st = 0") simp_all
  with w have "work st = 0" by simp
  then show ?thesis using assms(3)
    by (cases ev) (simp_all add: work_def)
qed

lemma ledger_submitted:
  "ledger 0 st \<Longrightarrow> q_limit (queue st) = Fin L \<Longrightarrow> int (submitted st) \<le> L"
  by (cases "limit st") (auto simp: ledger_def cap_def)

lemma pump_jobs_static [simp]:
  "q_limit (queue (pump_jobs us st)) = q_limit (queue st)"
  "q_concurrency (queue (pump_jobs us st)) = q_concurrency (queue st)"
  "q_timeout (queue (pump_jobs us st)) = q_timeout (queue st)"
  "q_accepted (queue (pump_jobs us st)) = q_accepted (queue st)"
  "self (pump_jobs us st) = self st"
  "submitted (pump_jobs us st) = submitted st"
  "timer_rejections (pump_jobs us st) = timer_rejections st"
  "paginate (pump_jobs us st) = paginate st"
  "throttle (pump_jobs us st) = throttle st"
  "delay (pump_jobs us st) = delay st"
  "throws (pump_jobs us st) = throws st"
  "cheerio (pump_jobs us st) = cheerio st"
  by (induction us arbitrary: st; simp add: Let_def split: dispatch.split prod.split)+

lemma step_static [simp]:
  "q_limit (queue (step ev st)) = q_limit (queue st)"
  "q_concurrency (queue (step ev st)) = q_concurrency (queue st)"
  "q_timeout (queue (step ev st)) = q_timeout (queue st)"
  by (cases ev; simp add: step_def ontimer_def enqueue_def finish_def pump_def Let_def
        del: pump_jobs.simps split: prod.split)+

lemma exec_static [simp]:
  "q_limit (queue (exec evs st)) = q_limit (queue st)"
  "q_concurrency (queue (exec evs st)) = q_concurrency (queue st)"
  "q_timeout (queue (exec evs st)) = q_timeout (queue st)"
  by (induction evs arbitrary: st; simp)+

lemma crawl_static [simp]:
  "q_limit (queue (crawl load c)) = st_limit c"
  "q_concurrency (queue (crawl load c))
     = (case st_concurrency c of None \<Rightarrow> 1 | Some n \<Rightarrow> if n = 0 then 1 else n)"
  "q_timeout (queue (crawl load c)) = st_timeout c"
  by (simp_all add: crawl_def function_truthy_def enqueue_def pump_def Let_def new_queue_def
      del: pump_jobs.simps)



lemma saturated_frame [simp]:
  "saturated (st\<lparr>self := s\<rparr>) = saturated st"
  "saturated (st\<lparr>submitted := n\<rparr>) = saturated st"
  "saturated (st\<lparr>timer_rejections := n\<rparr>) = saturated st"
  "saturated (st\<lparr>timers := ts\<rparr>) = saturated st"
  by (simp_all add: saturated_def)






lemma remaining_emitted [simp]: "remaining (st\<lparr>emitted := e\<rparr>) = remaining st"
  by (simp add: remaining_def)

lemma remaining_raised [simp]:
  "remaining (st\<lparr>raised := r\<rparr>) = remaining st"
  "remaining (st\<lparr>uncaught := xs\<rparr>) = remaining st"
  by (simp_all add: remaining_def)


lemma settle_remaining [simp]: "remaining (settle st) = remaining st"
  by (simp add: remaining_def)













lemma quiet_frame [simp]:
  "quiet (st\<lparr>self := s\<rparr>) = quiet st"
  "quiet (st\<lparr>queue := q\<rparr>) = quiet st"
  "quiet (st\<lparr>timers := ts\<rparr>) = quiet st"
  "quiet (st\<lparr>fetched := fs\<rparr>) = quiet st"
  "quiet (st\<lparr>submitted := n\<rparr>) = quiet st"
  "quiet (st\<lparr>timer_rejections := n\<rparr>) = quiet st"
  by (simp_all add: quiet_def)





























lemma get_hooks_only: "get (hooks_only s) = get s"
  by (simp add: fun_eq_iff get_def hooks_only_def)

lemma hooks_only_idem [simp]: "hooks_only (hooks_only s) = hooks_only s"
  by (simp add: hooks_only_def)

lemma hooks_only_setter: "hooks_only (apply_setter m (hooks_only s)) = hooks_only (apply_setter m s)"
  by (cases m) (simp_all add: hooks_only_def)

lemma hooks_only_snapshot: "snapshot m \<Longrightarrow> hooks_only (apply_setter m s) = hooks_only s"
  by (cases m) (simp_all add: hooks_only_def)

lemma schedule_upd:
  "schedule u (st\<lparr>self := s, throws := b\<rparr>) = (schedule u st)\<lparr>self := s, throws := b\<rparr>"
  by (simp add: schedule_eq)

lemma foldl_schedule_upd:
  "foldl (\<lambda>x u. schedule u x) (st\<lparr>self := s, throws := b\<rparr>) us
     = (foldl (\<lambda>x u. schedule u x) st us)\<lparr>self := s, throws := b\<rparr>"
  by (induction us arbitrary: st) (simp_all add: schedule_upd)

lemma onresponse_upd:
  "onresponse c (st\<lparr>self := s, throws := b\<rparr>) = (onresponse c st)\<lparr>self := s, throws := b\<rparr>"
proof -
  have e: "(st\<lparr>self := s, throws := b\<rparr>)\<lparr>emitted := x\<rparr> = (st\<lparr>emitted := x\<rparr>)\<lparr>self := s, throws := b\<rparr>"
    for x by simp
  have r: "(st\<lparr>self := s, throws := b\<rparr>)\<lparr>emitted := x, raised := y\<rparr>
      = (st\<lparr>emitted := x, raised := y\<rparr>)\<lparr>self := s, throws := b\<rparr>" for x y by simp
  show ?thesis
    by (simp only: onresponse_candidates)
       (simp add: e r foldl_schedule_upd parsed_def candidates_def split: sum.split
          del: foldl_schedule_frame)
qed

lemma settle_upd:
  "settle (st\<lparr>self := s, throws := b\<rparr>) = (settle st)\<lparr>self := s, throws := b\<rparr>"
  by (simp add: settle_def Let_def)

lemma onjobfinish_upd:
  "onjobfinish u e c (st\<lparr>self := s, throws := b\<rparr>)
     = (onjobfinish u e c st)\<lparr>self := s, throws := b\<rparr>"
proof -
  have x: "(st\<lparr>self := s, throws := b\<rparr>)\<lparr>emitted := y\<rparr> = (st\<lparr>emitted := y\<rparr>)\<lparr>self := s, throws := b\<rparr>"
    for y by simp
  show ?thesis
    by (cases e; cases c) (simp_all add: onjobfinish_def onresponse_upd settle_upd x)
qed

lemma callback_upd:
  "callback u e c (st\<lparr>self := s, throws := b\<rparr>)
     = (callback u e c st)\<lparr>self := s, throws := b\<rparr>"
  by (simp add: callback_def Let_def onjobfinish_upd split: option.split)

lemma pump_jobs_Pending:
  "length (q_pending (queue st)) < q_concurrency (queue st) \<Longrightarrow> get (self st) u = Pending j \<Longrightarrow>
     pump_jobs (u # us) st
       = pump_jobs us (st\<lparr>queue := (queue st)\<lparr>q_jobs := us, q_pending := q_pending (queue st) @ [j]\<rparr>,
                           fetched := fetched st @ [u]\<rparr>)"
  by (simp add: Let_def, (rule arg_cong [where f = "pump_jobs us"], simp)?)

lemma pump_jobs_Called:
  "length (q_pending (queue st)) < q_concurrency (queue st) \<Longrightarrow> get (self st) u = Called (e, c) \<Longrightarrow>
     pump_jobs (u # us) st
       = pump_jobs us (callback u e c
           (st\<lparr>queue := (queue st)\<lparr>q_jobs := us\<rparr>, fetched := fetched st @ [u]\<rparr>))"
  by (simp add: Let_def, (rule arg_cong [where f = "\<lambda>x. pump_jobs us (callback u e c x)"], simp)?)

lemma pump_jobs_upd:
  "get s = get (self st) \<Longrightarrow>
     pump_jobs us (st\<lparr>self := s, throws := b\<rparr>) = (pump_jobs us st)\<lparr>self := s, throws := b\<rparr>"
proof (induction us arbitrary: st)
  case Nil
  then show ?case by simp
next
  case (Cons u us)
  let ?st' = "st\<lparr>self := s, throws := b\<rparr>"
  show ?case
  proof (cases "length (q_pending (queue st)) < q_concurrency (queue st)")
    case False
    then show ?thesis by simp
  next
    case True
    then have True': "length (q_pending (queue ?st')) < q_concurrency (queue ?st')" by simp
    show ?thesis
    proof (cases "get (self st) u")
      case (Pending j)
      let ?st2 = "st\<lparr>queue := (queue st)\<lparr>q_jobs := us, q_pending := q_pending (queue st) @ [j]\<rparr>,
                           fetched := fetched st @ [u]\<rparr>"
      let ?st2' = "?st'\<lparr>queue := (queue ?st')\<lparr>q_jobs := us, q_pending := q_pending (queue ?st') @ [j]\<rparr>,
                           fetched := fetched ?st' @ [u]\<rparr>"
      have g': "get (self ?st') u = Pending j" using Pending Cons.prems by simp
      have a1: "pump_jobs (u # us) ?st' = pump_jobs us ?st2'"
        using True' g' by (rule pump_jobs_Pending)
      have a2: "?st2' = ?st2\<lparr>self := s, throws := b\<rparr>" by simp
      have g2: "get s = get (self ?st2)" using Cons.prems by simp
      have a3: "pump_jobs us (?st2\<lparr>self := s, throws := b\<rparr>) = (pump_jobs us ?st2)\<lparr>self := s, throws := b\<rparr>"
        using g2 by (rule Cons.IH)
      have a4: "pump_jobs (u # us) st = pump_jobs us ?st2"
        using True Pending by (rule pump_jobs_Pending)
      show ?thesis by (simp only: a1 a2 a3 a4)
    next
      case (Called p)
      obtain e c where p: "p = (e, c)" by (cases p)
      let ?st1 = "st\<lparr>queue := (queue st)\<lparr>q_jobs := us\<rparr>, fetched := fetched st @ [u]\<rparr>"
      let ?st1' = "?st'\<lparr>queue := (queue ?st')\<lparr>q_jobs := us\<rparr>, fetched := fetched ?st' @ [u]\<rparr>"
      have g: "get (self st) u = Called (e, c)" using Called p by simp
      have g': "get (self ?st') u = Called (e, c)" using g Cons.prems by simp
      have a1: "pump_jobs (u # us) ?st' = pump_jobs us (callback u e c ?st1')"
        using True' g' by (rule pump_jobs_Called)
      have a2: "?st1' = ?st1\<lparr>self := s, throws := b\<rparr>" by simp
      have a2': "callback u e c (?st1\<lparr>self := s, throws := b\<rparr>)
          = (callback u e c ?st1)\<lparr>self := s, throws := b\<rparr>" by (rule callback_upd)
      have g3: "get s = get (self (callback u e c ?st1))" using Cons.prems by simp
      have a3: "pump_jobs us ((callback u e c ?st1)\<lparr>self := s, throws := b\<rparr>)
          = (pump_jobs us (callback u e c ?st1))\<lparr>self := s, throws := b\<rparr>"
        using g3 by (rule Cons.IH)
      have a4: "pump_jobs (u # us) st = pump_jobs us (callback u e c ?st1)"
        using True g by (rule pump_jobs_Called)
      show ?thesis by (simp only: a1 a2 a2' a3 a4)
    qed
  qed
qed

lemma pump_upd:
  "get s = get (self st) \<Longrightarrow>
     pump (st\<lparr>self := s, throws := b\<rparr>) = (pump st)\<lparr>self := s, throws := b\<rparr>"
  by (simp add: pump_def pump_jobs_upd)

lemma enqueue_upd:
  assumes "get s = get (self st)"
  shows "enqueue u (st\<lparr>self := s, throws := b\<rparr>)
     = (fst (enqueue u st), (snd (enqueue u st))\<lparr>self := s, throws := b\<rparr>)"
proof (cases "reached (q_accepted (queue st)) (q_limit (queue st))")
  case True
  then show ?thesis by (simp add: enqueue_def Let_def)
next
  case False
  let ?st' = "st\<lparr>self := s, throws := b\<rparr>"
  let ?st2 = "st\<lparr>submitted := submitted st + 1,
     queue := (queue st)\<lparr>q_accepted := q_accepted (queue st) + 1, q_jobs := q_jobs (queue st) @ [u]\<rparr>\<rparr>"
  let ?st2' = "?st'\<lparr>submitted := submitted ?st' + 1,
     queue := (queue ?st')\<lparr>q_accepted := q_accepted (queue ?st') + 1, q_jobs := q_jobs (queue ?st') @ [u]\<rparr>\<rparr>"
  have acc: "\<not> reached (q_accepted (queue st')) (q_limit (queue st')) \<Longrightarrow>
      enqueue u st' = (True, pump (st'\<lparr>submitted := submitted st' + 1,
        queue := (queue st')\<lparr>q_accepted := q_accepted (queue st') + 1,
          q_jobs := q_jobs (queue st') @ [u]\<rparr>\<rparr>))" for st'
    by (simp add: enqueue_def Let_def)
  have F': "\<not> reached (q_accepted (queue ?st')) (q_limit (queue ?st'))" using False by simp
  have a1: "enqueue u ?st' = (True, pump ?st2')" using F' by (rule acc)
  have a2: "?st2' = ?st2\<lparr>self := s, throws := b\<rparr>" by simp
  have g: "get s = get (self ?st2)" using assms by simp
  have a3: "pump (?st2\<lparr>self := s, throws := b\<rparr>) = (pump ?st2)\<lparr>self := s, throws := b\<rparr>"
    using g by (rule pump_upd)
  have a4: "enqueue u st = (True, pump ?st2)" using False by (rule acc)
  show ?thesis by (simp only: a1 a2 a3 a4 fst_conv snd_conv)
qed

lemma ontimer_upd:
  "get s = get (self st) \<Longrightarrow>
     ontimer u (st\<lparr>self := s, throws := b\<rparr>) = (ontimer u st)\<lparr>self := s, throws := b\<rparr>"
  by (simp add: ontimer_def enqueue_upd split: prod.split)

lemma finish_upd:
  assumes "get s = get (self st)"
  shows "finish i e c (st\<lparr>self := s, throws := b\<rparr>) = (finish i e c st)\<lparr>self := s, throws := b\<rparr>"
proof -
  let ?st' = "st\<lparr>self := s, throws := b\<rparr>"
  let ?st1 = "st\<lparr>queue := (queue st)\<lparr>q_pending := drop_nth i (q_pending (queue st))\<rparr>\<rparr>"
  let ?st1' = "?st'\<lparr>queue := (queue ?st')\<lparr>q_pending := drop_nth i (q_pending (queue ?st'))\<rparr>\<rparr>"
  let ?u = "j_url (q_pending (queue st) ! i)"
  have fin: "finish i e c x = pump (callback (j_url (q_pending (queue x) ! i)) e c
      (x\<lparr>queue := (queue x)\<lparr>q_pending := drop_nth i (q_pending (queue x))\<rparr>\<rparr>))" for x
    by (simp add: finish_def Let_def)
  have u': "j_url (q_pending (queue ?st') ! i) = ?u" by simp
  have a2: "?st1' = ?st1\<lparr>self := s, throws := b\<rparr>" by simp
  have a2': "callback ?u e c (?st1\<lparr>self := s, throws := b\<rparr>)
      = (callback ?u e c ?st1)\<lparr>self := s, throws := b\<rparr>" by (rule callback_upd)
  have g: "get s = get (self (callback ?u e c ?st1))" using assms by simp
  have a3: "pump ((callback ?u e c ?st1)\<lparr>self := s, throws := b\<rparr>)
      = (pump (callback ?u e c ?st1))\<lparr>self := s, throws := b\<rparr>"
    using g by (rule pump_upd)
  show ?thesis by (simp only: fin [of ?st'] fin [of st] u' a2 a2' a3)
qed

lemma ontimer_upd':
  assumes "get s = get (self st)"
  shows "ontimer u ((st\<lparr>self := s, throws := b\<rparr>)\<lparr>timers := t\<rparr>)
     = (ontimer u (st\<lparr>timers := t\<rparr>))\<lparr>self := s, throws := b\<rparr>"
proof -
  have x: "(st\<lparr>self := s, throws := b\<rparr>)\<lparr>timers := t\<rparr> = (st\<lparr>timers := t\<rparr>)\<lparr>self := s, throws := b\<rparr>"
    by simp
  have g: "get s = get (self (st\<lparr>timers := t\<rparr>))" using assms by simp
  show ?thesis by (simp only: x ontimer_upd [OF g])
qed

lemma fire_upd:
  assumes "get s = get (self st)" and "internal ev"
  shows "fire ev (st\<lparr>self := s, throws := b\<rparr>) = (fire ev st)\<lparr>self := s, throws := b\<rparr>"
proof (cases ev)
  case (Timer i)
  have t: "timers (st\<lparr>self := s, throws := b\<rparr>) = timers st" by simp
  show ?thesis
    by (simp only: Timer fire.simps t ontimer_upd' [OF assms(1)])
next
  case (Complete i)
  obtain e c where r: "job_result (q_pending (queue st) ! i) = (e, c)"
    by (cases "job_result (q_pending (queue st) ! i)")
  have q: "queue (st\<lparr>self := s, throws := b\<rparr>) = queue st" by simp
  show ?thesis
    by (simp only: Complete fire.simps q r prod.case finish_upd [OF assms(1)])
next
  case (Timeout i)
  show ?thesis
    by (simp only: Timeout fire.simps finish_upd [OF assms(1)])
next
  case (Mutate m)
  with assms(2) show ?thesis by simp
qed

lemma step_upd:
  assumes "get s = get (self st)" and "internal ev"
  shows "step ev (st\<lparr>self := s, throws := b\<rparr>) = (step ev st)\<lparr>self := s, throws := b\<rparr>"
proof -
  have en: "enabled ev (st\<lparr>self := s, throws := b\<rparr>) = enabled ev st"
    by (cases ev) simp_all
  show ?thesis
  proof (cases "enabled ev st")
    case True
    then show ?thesis by (simp only: step_def en if_True fire_upd [OF assms])
  next
    case False
    then show ?thesis by (simp only: step_def en if_False)
  qed
qed

lemma step_self: "internal ev \<Longrightarrow> self (step ev st) = self st"
  by (cases ev)
    (simp_all add: step_def ontimer_def enqueue_def finish_def pump_def Let_def
      split: prod.split del: pump_jobs.simps)

lemma observable_step: "observable (step ev (observable st)) = observable (step ev st)"
proof (cases "internal ev")
  case True
  have "get (hooks_only (self st)) = get (self st)" by (rule get_hooks_only)
  from step_upd [OF this True, of False] step_self [OF True, of st]
  show ?thesis by (simp add: observable_def)
next
  case False
  then obtain m where "ev = Mutate m" by (cases ev) simp_all
  then show ?thesis
    by (simp add: step_def observable_def hooks_only_setter)
qed

lemma observable_exec: "observable (exec evs (observable st)) = observable (exec evs st)"
proof (induction evs arbitrary: st)
  case Nil
  show ?case by (simp add: observable_def)
next
  case (Cons ev evs)
  have "observable (exec (ev # evs) (observable st))
      = observable (exec evs (observable (step ev (observable st))))"
    by (simp add: Cons.IH)
  also have "\<dots> = observable (exec evs (observable (step ev st)))"
    by (simp add: observable_step)
  also have "\<dots> = observable (exec (ev # evs) st)"
    by (simp add: Cons.IH)
  finally show ?case .
qed

lemma observable_exec_cong:
  assumes "observable st = observable st'"
  shows "observable (exec evs st) = observable (exec evs st')"
proof -
  have "observable (exec evs st) = observable (exec evs (observable st))"
    by (simp add: observable_exec)
  also have "\<dots> = observable (exec evs (observable st'))" by (simp add: assms)
  also have "\<dots> = observable (exec evs st')" by (simp add: observable_exec)
  finally show ?thesis .
qed

lemma crawl_throws: "crawl load (c\<lparr>st_throws := b\<rparr>) = (crawl load c)\<lparr>self := c\<lparr>st_throws := b\<rparr>, throws := b\<rparr>"
proof -
  let ?st1 = "\<lparr>self = c, limit = st_limit c, paginate = st_paginate c, throttle = st_throttle c,
                 throws = st_throws c, delay = st_delay c, scheduled = 1,
                 queue = new_queue (st_concurrency c) (st_timeout c) (st_limit c),
                 timers = [], emitted = [], completions = 0, cheerio = load,
                 fetched = [], calls = 0, submitted = 0, timer_rejections = 0,
                 raised = None, uncaught = []\<rparr>"
  have g: "get (c\<lparr>st_throws := b\<rparr>) = get (self ?st1)"
    by (simp add: fun_eq_iff get_def)
  have l: "crawl load (c\<lparr>st_throws := b\<rparr>)
      = snd (enqueue (st_url c) (?st1\<lparr>self := c\<lparr>st_throws := b\<rparr>, throws := b\<rparr>))"
    by (simp add: crawl_def function_truthy_def Let_def)
  have r: "crawl load c = snd (enqueue (st_url c) ?st1)"
    by (simp add: crawl_def function_truthy_def Let_def)
  show ?thesis
    by (simp only: l r enqueue_upd [OF g] snd_conv)
qed

section \<open>The claims\<close>

text \<open>
  C2. Within the callback of a finished job, \<^verbatim>\<open>onresponse\<close> (discovery, and for each
  admitted child the increment of \<open>scheduled\<close> together with its timer) runs before the
  job's own decrement in \<open>settle\<close>. In every state a run can reach, under any order of
  timers, driver callbacks, timeouts and setter calls: \<open>scheduled\<close> is at least the number
  of pending units of work; it is zero only when nothing is pending, and then \<^verbatim>\<open>done()\<close>
  has been called exactly once; \<^verbatim>\<open>done()\<close> is never called twice; and once it has been
  called no timer can fire and no job can finish, so nothing is scheduled any more.
\<close>

theorem counter_zero_iff_drained:
  "int (work (exec evs (crawl load c))) \<le> scheduled (exec evs (crawl load c))
   \<and> (scheduled (exec evs (crawl load c)) = 0 \<longrightarrow>
        work (exec evs (crawl load c)) = 0 \<and> completions (exec evs (crawl load c)) = 1)
   \<and> completions (exec evs (crawl load c)) \<le> 1
   \<and> (completions (exec evs (crawl load c)) = 1 \<longrightarrow>
        scheduled (exec evs (crawl load c)) = 0
        \<and> (\<forall>ev. internal ev \<longrightarrow> \<not> enabled ev (exec evs (crawl load c))))
   \<and> onjobfinish u None (Some cx) st = settle (onresponse cx st)
   \<and> scheduled (onresponse cx st) - int (length (timers (onresponse cx st)))
       = scheduled st - int (length (timers st))"
proof -
  let ?s = "exec evs (crawl load c)"
  have ord: "onjobfinish u None (Some cx) st = settle (onresponse cx st)"
    by (simp add: onjobfinish_def)
  have sl: "scheduled (onresponse cx st) - int (length (timers (onresponse cx st)))
       = scheduled st - int (length (timers st))"
    using onresponse_slack [of cx st] by (simp add: slack_def)
  from reach_cases [of evs load c] show ?thesis
  proof
    assume l: "ledger 0 ?s"
    then have c: "completions ?s = (if scheduled ?s = 0 then 1 else 0)"
      and w: "scheduled ?s = int (work ?s) + int (length (uncaught ?s)) + 0"
      by (simp_all add: ledger_def)
    have "int (work ?s) \<le> scheduled ?s"
      and "scheduled ?s = 0 \<longrightarrow> work ?s = 0 \<and> completions ?s = 1"
      and "completions ?s \<le> 1"
      and "completions ?s = 1 \<longrightarrow> scheduled ?s = 0"
      using c w by (cases "scheduled ?s = 0"; simp)+
    moreover have "completions ?s = 1 \<longrightarrow> (\<forall>ev. internal ev \<longrightarrow> \<not> enabled ev ?s)"
      using l ledger0_quiet by blast
    ultimately show ?thesis using ord sl by blast
  next
    assume d: "dead ?s"
    then show ?thesis using ord sl by (simp add: dead_def)
  qed
qed

theorem counter_zero_iff_drained_witness:
  "scheduled (exec [Complete 0, Timer 0, Timer 0, Complete 0, Complete 0]
       (crawl plain fanout_crawler)) = 0
   \<and> work (exec [Complete 0, Timer 0, Timer 0, Complete 0, Complete 0]
       (crawl plain fanout_crawler)) = 0
   \<and> completions (exec [Complete 0, Timer 0, Timer 0, Complete 0, Complete 0]
       (crawl plain fanout_crawler)) = 1
   \<and> \<not> enabled (Timer 0) (exec [Complete 0, Timer 0, Timer 0, Complete 0, Complete 0]
       (crawl plain fanout_crawler))
   \<and> scheduled (exec [Complete 0] (crawl plain fanout_crawler)) = 2
   \<and> completions (exec [Complete 0] (crawl plain fanout_crawler)) = 0"
proof -
  let ?s = "exec [Complete 0, Timer 0, Timer 0, Complete 0, Complete 0]
       (crawl plain fanout_crawler)"
  have z: "scheduled ?s = 0" by code_simp
  have i: "internal (Timer 0)" by simp
  have a: "scheduled (exec [Complete 0] (crawl plain fanout_crawler)) = 2" by code_simp
  have b: "completions (exec [Complete 0] (crawl plain fanout_crawler)) = 0" by code_simp
  from counter_zero_iff_drained
    [of "[Complete 0, Timer 0, Timer 0, Complete 0, Complete 0]" plain fanout_crawler]
  have "work ?s = 0 \<and> completions ?s = 1 \<and> \<not> enabled (Timer 0) ?s"
    using z i by blast
  with z a b show ?thesis by blast
qed

text \<open>
  C6, as amended. On driver success the context body is overwritten with the driver's
  result exactly when that result is truthy and is not the context itself (the test is
  \<^verbatim>\<open>res && res != ctx\<close>; the body is not compared). Then the response hook runs on the
  inbound descriptor and the callback receives \<^verbatim>\<open>(null, ctx)\<close>.
\<close>

theorem get_done_success:
  "get_done response c None res =
     (None, Some (case res of
        RVal v \<Rightarrow> if truthy v then c\<lparr>c_response := response ((c_response c)\<lparr>rs_body := v\<rparr>)\<rparr>
                  else c\<lparr>c_response := response (c_response c)\<rparr>
      | RCtx \<Rightarrow> c\<lparr>c_response := response (c_response c)\<rparr>))"
  by (simp add: get_done_def set_body_def split: dres.split)

text \<open>
  C6 as stated fails: a driver that fills the context and calls back without a result hands
  over \<^verbatim>\<open>undefined\<close>, which differs from the body, and the body stays.
\<close>

theorem get_done_body_counterexample:
  "\<not> (\<forall>response c v. v \<noteq> body c \<longrightarrow>
        get_done response c None (RVal v)
          = (None, Some (c\<lparr>c_response := response ((c_response c)\<lparr>rs_body := v\<rparr>)\<rparr>)))"
proof
  assume claim: "\<forall>response c v. v \<noteq> body c \<longrightarrow>
        get_done response c None (RVal v)
          = (None, Some (c\<lparr>c_response := response ((c_response c)\<lparr>rs_body := v\<rparr>)\<rparr>))"
  let ?c = "set_body (JStr ''page'') new_context"
  have "JUndefined \<noteq> body ?c"
    by (simp add: body_def set_body_def)
  with claim have "get_done (\<lambda>r. r) ?c None (RVal JUndefined)
      = (None, Some (?c\<lparr>c_response := (c_response ?c)\<lparr>rs_body := JUndefined\<rparr>\<rparr>))"
    by blast
  then show False
    by (simp add: get_done_def set_body_def new_context_def)
qed

text \<open>
  C7. A crawler on which \<^verbatim>\<open>paginate\<close> was never called holds the default discovery
  function, which is truthy: \<^verbatim>\<open>crawl\<close> takes the configured limit (\<^verbatim>\<open>Infinity\<close> by
  default) and not 1. The seed is fetched.
\<close>

theorem crawl_default_limit:
  "limit (crawl load (Crawler http url)) = Infinity
   \<and> q_limit (queue (crawl load (Crawler http url))) = Infinity
   \<and> limit (crawl load ((Crawler http url)\<lparr>st_limit := Fin 5\<rparr>)) = Fin 5
   \<and> fetched (crawl load (Crawler http url)) = [url]"
  by (simp add: crawl_def Crawler_def function_truthy_def enqueue_def new_queue_def pump_def
      Let_def get_def new_context_def body_def)

text \<open>
  C9. Whenever the JSON value is not an array, \<^verbatim>\<open>json_select\<close> raises the
  ReferenceError for \<^verbatim>\<open>obj\<close> instead of returning, and so does the compiled discovery
  function on a JSON response, whatever the selector.
\<close>

theorem json_select_object_faults:
  assumes "\<not> isArray json"
  shows "json_select selectn selector json = Inl (ReferenceError ''obj'')
    \<and> (is_type (c_response c) Json \<longrightarrow>
         compile select selectn selector json c = Inl (ReferenceError ''obj''))"
  using assms by (simp add: json_select_def compile_def is_type_def)

theorem json_select_object_faults_witness:
  "\<not> isArray (JObj [(''next'', JStr ''http://b'')])
   \<and> json_select (\<lambda>s v. v) ''next'' (JObj [(''next'', JStr ''http://b'')])
       = Inl (ReferenceError ''obj'')
   \<and> compile (\<lambda>d s. d) (\<lambda>s v. v) ''next'' (JObj [(''next'', JStr ''http://b'')])
        (new_context\<lparr>c_response := \<lparr>rs_status = 200, rs_type = Json,
           rs_body = JObj [(''next'', JStr ''http://b'')]\<rparr>\<rparr>)
       = Inl (ReferenceError ''obj'')"
  using json_select_object_faults [of "JObj [(''next'', JStr ''http://b'')]" "\<lambda>s v. v" "''next''"
    "new_context\<lparr>c_response := \<lparr>rs_status = 200, rs_type = Json,
           rs_body = JObj [(''next'', JStr ''http://b'')]\<rparr>\<rparr>" "\<lambda>d s. d"]
  by (simp add: is_type_def)

text \<open>
  C10, as amended. In no run is a submission made from a timer rejected: the branch
  \<^verbatim>\<open>if (!queued) return\<close> is never taken. When the configured limit is at least 1 or
  unbounded, no submission at all is rejected, and with a limit \<open>L\<close> at most \<open>L\<close>
  submissions are made (the seed and the candidates admitted by \<^verbatim>\<open>schedule\<close>).
\<close>

theorem submissions_within_limit:
  "timer_rejections (exec evs (crawl load c)) = 0
   \<and> q_limit (queue (exec evs (crawl load c))) = st_limit c
   \<and> (\<not> le0 (st_limit c) \<longrightarrow>
        submitted (exec evs (crawl load c)) = q_accepted (queue (exec evs (crawl load c)))
        \<and> (\<forall>L. st_limit c = Fin L \<longrightarrow> int (submitted (exec evs (crawl load c))) \<le> L))"
proof -
  let ?s = "exec evs (crawl load c)"
  have q: "q_limit (queue ?s) = st_limit c" by simp
  have t: "timer_rejections ?s = 0"
    using reach_cases [of evs load c] by (auto simp: ledger_def dead_def)
  have "submitted ?s = q_accepted (queue ?s)
        \<and> (\<forall>L. st_limit c = Fin L \<longrightarrow> int (submitted ?s) \<le> L)" if "\<not> le0 (st_limit c)"
  proof -
    from that have l: "ledger 0 ?s" by (simp add: crawl_ledger exec_ledger)
    then have "submitted ?s = q_accepted (queue ?s)" by (simp add: ledger_def)
    moreover have "\<forall>L. st_limit c = Fin L \<longrightarrow> int (submitted ?s) \<le> L"
      using l q ledger_submitted by simp
    ultimately show ?thesis by simp
  qed
  with q t show ?thesis by blast
qed

theorem submissions_within_limit_witness:
  "\<not> le0 (st_limit chain_crawler)
   \<and> st_limit chain_crawler = Fin 2
   \<and> submitted (exec [Complete 0, Timer 0, Complete 0] (crawl plain chain_crawler)) = 2
   \<and> q_accepted (queue (exec [Complete 0, Timer 0, Complete 0] (crawl plain chain_crawler))) = 2
   \<and> timer_rejections (exec [Complete 0, Timer 0, Complete 0] (crawl plain chain_crawler)) = 0"
proof -
  let ?s = "exec [Complete 0, Timer 0, Complete 0] (crawl plain chain_crawler)"
  have l: "st_limit chain_crawler = Fin 2" by (simp add: chain_crawler_def)
  then have n: "\<not> le0 (st_limit chain_crawler)" by simp
  have s: "submitted ?s = 2" by code_simp
  from submissions_within_limit [of "[Complete 0, Timer 0, Complete 0]" plain chain_crawler] n
  have "timer_rejections ?s = 0" and "submitted ?s = q_accepted (queue ?s)"
    by blast+
  with l n s show ?thesis by simp
qed

text \<open>
  C10 as stated fails for a limit of 0: the seed is submitted all the same, one submission
  against a limit of none, and the queue rejects it.
\<close>

theorem seed_rejected_counterexample:
  "\<not> (\<forall>load c evs.
        submitted (exec evs (crawl load c)) = q_accepted (queue (exec evs (crawl load c)))
        \<and> (\<forall>L. st_limit c = Fin L \<longrightarrow> int (submitted (exec evs (crawl load c))) \<le> L))"
proof
  assume "\<forall>load c evs.
        submitted (exec evs (crawl load c)) = q_accepted (queue (exec evs (crawl load c)))
        \<and> (\<forall>L. st_limit c = Fin L \<longrightarrow> int (submitted (exec evs (crawl load c))) \<le> L)"
  then have "submitted (exec [] (crawl plain (chain_crawler\<lparr>st_limit := Fin 0\<rparr>)))
     = q_accepted (queue (exec [] (crawl plain (chain_crawler\<lparr>st_limit := Fin 0\<rparr>))))"
    by blast
  moreover have "submitted (exec [] (crawl plain (chain_crawler\<lparr>st_limit := Fin 0\<rparr>))) = 1"
    by code_simp
  moreover have "q_accepted (queue (exec [] (crawl plain (chain_crawler\<lparr>st_limit := Fin 0\<rparr>)))) = 0"
    by code_simp
  ultimately show False by simp
qed






text \<open>
  C4, as amended. A failed job is reported on the error signal with its URL and then
  settles the in-flight counter like any other job; the run goes on. The flag
  \<^verbatim>\<open>throws\<close> changes nothing: two runs that differ only in the flag agree, event for
  event, on the queue, the timers, the counters and the signals.
\<close>

theorem throws_flag_ignored:
  "observable (exec evs (crawl load (c\<lparr>st_throws := b\<rparr>))) = observable (exec evs (crawl load c))
   \<and> onjobfinish u (Some e) cx st = settle (st\<lparr>emitted := emitted st @ [SError e u]\<rparr>)"
proof -
  have "observable (crawl load (c\<lparr>st_throws := b\<rparr>)) = observable (crawl load c)"
    by (simp add: crawl_throws observable_def hooks_only_def)
       (simp add: crawl_def function_truthy_def enqueue_def pump_def Let_def del: pump_jobs.simps)
  then have "observable (exec evs (crawl load (c\<lparr>st_throws := b\<rparr>)))
      = observable (exec evs (crawl load c))"
    by (rule observable_exec_cong)
  then show ?thesis by (simp add: onjobfinish_def)
qed

theorem throws_flag_ignored_witness:
  "map is_failure (emitted (exec [Complete 0, Timer 0, Timer 0, Complete 0]
        (crawl plain (tree_crawler\<lparr>st_throws := False\<rparr>)))) = [False, True]
   \<and> emitted (exec [Complete 0, Timer 0, Timer 0, Complete 0]
        (crawl plain (tree_crawler\<lparr>st_throws := False\<rparr>)))
     = emitted (exec [Complete 0, Timer 0, Timer 0, Complete 0] (crawl plain tree_crawler))"
proof -
  let ?evs = "[Complete 0, Timer 0, Timer 0, Complete 0]"
  have a: "map is_failure (emitted (exec ?evs (crawl plain (tree_crawler\<lparr>st_throws := False\<rparr>))))
      = [False, True]" by code_simp
  from throws_flag_ignored [where evs = ?evs and load = plain and c = tree_crawler and b = False]
  have "observable (exec ?evs (crawl plain (tree_crawler\<lparr>st_throws := False\<rparr>)))
      = observable (exec ?evs (crawl plain tree_crawler))" by blast
  then have "emitted (observable (exec ?evs (crawl plain (tree_crawler\<lparr>st_throws := False\<rparr>))))
      = emitted (observable (exec ?evs (crawl plain tree_crawler)))" by simp
  then have "emitted (exec ?evs (crawl plain (tree_crawler\<lparr>st_throws := False\<rparr>)))
      = emitted (exec ?evs (crawl plain tree_crawler))" by (simp add: observable_def)
  with a show ?thesis by blast
qed

text \<open>
  C4 as stated fails. With \<^verbatim>\<open>throws\<close> set, \<^verbatim>\<open>http://b\<close> fails; the job of
  \<^verbatim>\<open>http://c\<close>, which had not started when the error was reported, then starts, and its
  response schedules \<^verbatim>\<open>http://d\<close>, which is fetched before the run completes.
\<close>

theorem throws_counterexample:
  "st_throws tree_crawler
   \<and> throws (crawl plain tree_crawler)
   \<and> map is_failure (emitted (exec [Complete 0, Timer 0, Timer 0, Complete 0]
        (crawl plain tree_crawler))) = [False, True]
   \<and> calls (exec [Complete 0, Timer 0, Timer 0, Complete 0] (crawl plain tree_crawler)) = 2
   \<and> calls (exec [Complete 0, Timer 0, Timer 0, Complete 0, Complete 0]
        (crawl plain tree_crawler)) = 3
   \<and> map fst (timers (exec [Complete 0, Timer 0, Timer 0, Complete 0, Complete 0]
        (crawl plain tree_crawler))) = [JStr ''http://d'']
   \<and> fetched (exec [Complete 0, Timer 0, Timer 0, Complete 0, Complete 0, Timer 0, Complete 0]
        (crawl plain tree_crawler))
       = [JStr ''http://a'', JStr ''http://b'', JStr ''http://c'', JStr ''http://d'']
   \<and> completions (exec [Complete 0, Timer 0, Timer 0, Complete 0, Complete 0, Timer 0, Complete 0]
        (crawl plain tree_crawler)) = 1"
  by code_simp

text \<open>
  C5, as amended. \<^verbatim>\<open>crawl\<close> copies the limit, the discovery function, the throttle, the
  delay and the flag into locals and hands concurrency, timeout and limit to the queue when
  it starts: a later call of one of their setters, at any moment of the run, changes
  nothing of the run. The request hook, the response hook and the driver are read from the
  live state by every \<^verbatim>\<open>get\<close>: a job started after \<^verbatim>\<open>driver(d)\<close> was called is
  fetched by \<open>d\<close>.
\<close>

theorem snapshot_setters_ignored:
  assumes "snapshot m"
  shows "observable (exec (evs1 @ Mutate m # evs2) (crawl load c))
           = observable (exec (evs1 @ evs2) (crawl load c))
    \<and> get (apply_setter (SetDriver d) s) u =
        (case get s u of
           Pending j \<Rightarrow> Pending (j\<lparr>j_outcome := d (j_ctx j)\<rparr>)
         | Called r \<Rightarrow> Called r)"
proof -
  let ?s1 = "exec evs1 (crawl load c)"
  have "observable (step (Mutate m) ?s1) = observable ?s1"
    using assms by (simp add: step_def observable_def hooks_only_snapshot)
  then have "observable (exec evs2 (step (Mutate m) ?s1)) = observable (exec evs2 ?s1)"
    by (rule observable_exec_cong)
  then have a: "observable (exec (evs1 @ Mutate m # evs2) (crawl load c))
           = observable (exec (evs1 @ evs2) (crawl load c))"
    by (simp add: exec_append)
  have b: "get (apply_setter (SetDriver d) s) u =
        (case get s u of
           Pending j \<Rightarrow> Pending (j\<lparr>j_outcome := d (j_ctx j)\<rparr>)
         | Called r \<Rightarrow> Called r)"
    by (simp add: get_def Let_def)
  from a b show ?thesis by blast
qed

theorem snapshot_setters_ignored_witness:
  "snapshot (SetLimit (Fin 1))
   \<and> fetched (exec ([Complete 0] @ Mutate (SetLimit (Fin 1)) #
        [Timer 0, Timer 0, Complete 0, Complete 0]) (crawl plain fanout_crawler))
       = [JStr ''http://a'', JStr ''http://b'', JStr ''http://c'']"
proof -
  let ?evs2 = "[Timer 0, Timer 0, Complete 0, Complete 0]"
  have s: "snapshot (SetLimit (Fin 1))" by simp
  from snapshot_setters_ignored [OF s, of "[Complete 0]" ?evs2 plain fanout_crawler]
  have "observable (exec ([Complete 0] @ Mutate (SetLimit (Fin 1)) # ?evs2)
          (crawl plain fanout_crawler))
      = observable (exec ([Complete 0] @ ?evs2) (crawl plain fanout_crawler))" by blast
  then have "fetched (observable (exec ([Complete 0] @ Mutate (SetLimit (Fin 1)) # ?evs2)
          (crawl plain fanout_crawler)))
      = fetched (observable (exec ([Complete 0] @ ?evs2) (crawl plain fanout_crawler)))"
    by simp
  then have "fetched (exec ([Complete 0] @ Mutate (SetLimit (Fin 1)) # ?evs2)
          (crawl plain fanout_crawler))
      = fetched (exec ([Complete 0] @ ?evs2) (crawl plain fanout_crawler))"
    by (simp add: observable_def)
  moreover have "fetched (exec ([Complete 0] @ ?evs2) (crawl plain fanout_crawler))
      = [JStr ''http://a'', JStr ''http://b'', JStr ''http://c'']" by code_simp
  ultimately show ?thesis using s by simp
qed

text \<open>
  C5 as stated fails: after \<^verbatim>\<open>driver(d)\<close> is called in the middle of a run, the next
  job is fetched by \<open>d\<close>; here it fails where the run left alone gets a page.
\<close>

theorem live_driver_counterexample:
  "\<not> (\<forall>load c evs1 m evs2.
        map is_failure (emitted (exec (evs1 @ Mutate m # evs2) (crawl load c)))
          = map is_failure (emitted (exec (evs1 @ evs2) (crawl load c))))"
proof
  assume a: "\<forall>load c evs1 m evs2.
        map is_failure (emitted (exec (evs1 @ Mutate m # evs2) (crawl load c)))
          = map is_failure (emitted (exec (evs1 @ evs2) (crawl load c)))"
  have l: "map is_failure (emitted (exec ([Complete 0] @ Mutate (SetDriver failing_driver) #
        [Timer 0, Complete 0]) (crawl plain fanout_crawler))) = [False, True]"
    by code_simp
  have r: "map is_failure (emitted (exec ([Complete 0] @ [Timer 0, Complete 0])
        (crawl plain fanout_crawler))) = [False, False]"
    by code_simp
  from a have "map is_failure (emitted (exec ([Complete 0] @ Mutate (SetDriver failing_driver) #
        [Timer 0, Complete 0]) (crawl plain fanout_crawler)))
      = map is_failure (emitted (exec ([Complete 0] @ [Timer 0, Complete 0])
        (crawl plain fanout_crawler)))" by blast
  with l r show False by simp
qed

end
